theory Spec2Isabelle
  imports Complex_Main
begin

section \<open>audio\_transcribe: timestamps and transcript artifacts\<close>

text \<open>
  A shallow embedding of \<^verbatim>\<open>src/audio_transcribe.py\<close>: the two timestamp
  formatters \<^verbatim>\<open>format_td\<close> and \<^verbatim>\<open>format_to_srt_ts\<close>, and the
  function \<^verbatim>\<open>transcribe\<close> that drains the engine's segments and writes
  the \<^verbatim>\<open>.txt\<close> and \<^verbatim>\<open>.srt\<close> files.

  Conventions of the embedding.
  \<^item> A Python \<^verbatim>\<open>str\<close> is the list of its Unicode code points, each the
    integer that \<^verbatim>\<open>ord\<close> returns (\<open>pystr\<close>); an ASCII literal is written
    \<open>asc ''...''\<close>.
  \<^item> A Python \<^verbatim>\<open>float\<close> is an IEEE binary64 value: a rational, or one of
    the two infinities, or NaN (\<open>pyfloat\<close>). The sign of zero is not kept: the
    program only multiplies its floats by a positive power of ten and rounds them to an
    \<^verbatim>\<open>int\<close>, and both zeros give the integer 0.
  \<^item> A Python \<^verbatim>\<open>int\<close> is an \<open>int\<close>; \<^verbatim>\<open>divmod\<close> on ints is
    floor division, which is \<open>div\<close> and \<open>mod\<close> of HOL.
  \<^item> An exception is a value of \<open>py_error\<close>; a function that can raise returns
    \<open>py_error + 'a\<close>.
\<close>

subsection \<open>Strings\<close>

type_synonym pystr = "int list"

definition asc :: "string \<Rightarrow> pystr" where
  "asc s = map of_char s"

datatype py_error = ValueError | OverflowError | OSError | EngineError

text \<open>\<^verbatim>\<open>str(n)\<close> and \<^verbatim>\<open>'%d' % n\<close> for an int: decimal digits
  (\<open>str_nat\<close>, for a non-negative int), a minus sign before them for a negative number.\<close>

function str_nat :: "int \<Rightarrow> pystr" where
  "str_nat n = (if n < 10 then [48 + n] else str_nat (n div 10) @ [48 + n mod 10])"
  by pat_completeness auto
termination
  by (relation "measure nat") auto

declare str_nat.simps [simp del]

definition str_int :: "int \<Rightarrow> pystr" where
  "str_int i = (if i < 0 then 45 # str_nat (- i) else str_nat i)"

text \<open>Right-justification in a field of width \<open>w\<close> padded with \<^verbatim>\<open>'0'\<close>: the
  format specifications \<^verbatim>\<open>0>8\<close> on a string and \<^verbatim>\<open>%02d\<close>,
  \<^verbatim>\<open>03.0f\<close> on a non-negative number. A longer string is left as it is.\<close>

definition zero_pad :: "nat \<Rightarrow> pystr \<Rightarrow> pystr" where
  "zero_pad w s = replicate (w - length s) 48 @ s"

text \<open>The ASCII decimal digits \<^verbatim>\<open>0\<close> to \<^verbatim>\<open>9\<close>.\<close>

definition is_digit :: "int \<Rightarrow> bool" where
  "is_digit c \<longleftrightarrow> 48 \<le> c \<and> c \<le> 57"

subsection \<open>Floats\<close>

datatype pyfloat = Finite rat | PosInf | NegInf | NaN

text \<open>\<^verbatim>\<open>int.bit_length\<close> of a non-negative int.\<close>

function bit_length :: "int \<Rightarrow> int" where
  "bit_length n = (if n \<le> 0 then 0 else 1 + bit_length (n div 2))"
  by pat_completeness auto
termination
  by (relation "measure nat") auto

declare bit_length.simps [simp del]

text \<open>The exponent of the leading bit of a positive rational: \<open>\<lfloor>log\<^sub>2 a\<rfloor>\<close>.\<close>

definition floor_log2 :: "rat \<Rightarrow> int" where
  "floor_log2 a =
     (if 1 \<le> a then bit_length \<lfloor>a\<rfloor> - 1
      else - bit_length (\<lceil>1 / a\<rceil> - 1))"

definition pow2 :: "int \<Rightarrow> rat" where
  "pow2 e = (if 0 \<le> e then 2 ^ nat e else 1 / 2 ^ nat (- e))"

text \<open>Rounding to the nearest integer, a tie going to the even neighbour: the rounding
  of \<^verbatim>\<open>round(x)\<close> on a float, and of the significand in every IEEE operation.\<close>

definition round_half_even :: "rat \<Rightarrow> int" where
  "round_half_even x =
     (let f = \<lfloor>x\<rfloor>; r = x - of_int f
      in if r < 1 / 2 then f
         else if 1 / 2 < r then f + 1
         else if even f then f else f + 1)"

text \<open>Rounding of an exact result to binary64 (round to nearest, ties to even): the
  significand \<open>m\<close> has 53 bits, the exponent \<open>e\<close> of its last bit is at least
  \<open>-1074\<close> (subnormal numbers) and at most \<open>971\<close>; the result is an infinity when
  the rounded value \<open>m \<sqdot> 2\<^sup>e\<close> needs a larger exponent, that is when it reaches
  \<open>2\<^sup>5\<^sup>3 \<sqdot> 2\<^sup>9\<^sup>7\<^sup>1\<close>.\<close>

definition fl_round :: "rat \<Rightarrow> pyfloat" where
  "fl_round q =
     (if q = 0 then Finite 0
      else
        let a = \<bar>q\<bar>;
            e = max (floor_log2 a - 52) (- 1074);
            m = round_half_even (a / pow2 e)
        in if 971 < e \<or> (e = 971 \<and> 2 ^ 53 \<le> m)
           then (if 0 < q then PosInf else NegInf)
           else Finite (if 0 < q then of_int m * pow2 e else - (of_int m * pow2 e)))"

text \<open>Conversion of an int to a float, as in \<^verbatim>\<open>x * 10**digits\<close> and in the
  \<^verbatim>\<open>f\<close> presentation of an int: correctly rounded, and
  \<^verbatim>\<open>OverflowError\<close> when the int is too large for a float.\<close>

definition int_to_float :: "int \<Rightarrow> py_error + pyfloat" where
  "int_to_float n =
     (case fl_round (of_int n) of
        Finite q \<Rightarrow> Inr (Finite q)
      | _ \<Rightarrow> Inl OverflowError)"

text \<open>IEEE multiplication of two floats.\<close>

fun fmul :: "pyfloat \<Rightarrow> pyfloat \<Rightarrow> pyfloat" where
  "fmul NaN _ = NaN"
| "fmul _ NaN = NaN"
| "fmul (Finite a) (Finite b) = fl_round (a * b)"
| "fmul (Finite a) PosInf = (if a = 0 then NaN else if 0 < a then PosInf else NegInf)"
| "fmul (Finite a) NegInf = (if a = 0 then NaN else if 0 < a then NegInf else PosInf)"
| "fmul PosInf (Finite b) = (if b = 0 then NaN else if 0 < b then PosInf else NegInf)"
| "fmul NegInf (Finite b) = (if b = 0 then NaN else if 0 < b then NegInf else PosInf)"
| "fmul PosInf PosInf = PosInf"
| "fmul PosInf NegInf = NegInf"
| "fmul NegInf PosInf = NegInf"
| "fmul NegInf NegInf = PosInf"

text \<open>\<^verbatim>\<open>float * int\<close>: the int is converted to a float first.\<close>

definition fmul_int :: "pyfloat \<Rightarrow> int \<Rightarrow> py_error + pyfloat" where
  "fmul_int x n = (case int_to_float n of Inl e \<Rightarrow> Inl e | Inr y \<Rightarrow> Inr (fmul x y))"

text \<open>\<^verbatim>\<open>round(x)\<close> of a float with no digit count: an int, ties to even;
  \<^verbatim>\<open>ValueError\<close> on NaN and \<^verbatim>\<open>OverflowError\<close> on an infinity.\<close>

fun py_round :: "pyfloat \<Rightarrow> py_error + int" where
  "py_round (Finite q) = Inr (round_half_even q)"
| "py_round NaN = Inl ValueError"
| "py_round PosInf = Inl OverflowError"
| "py_round NegInf = Inl OverflowError"

subsection \<open>\<^verbatim>\<open>datetime.timedelta\<close>\<close>

text \<open>\<^verbatim>\<open>timedelta(seconds=isec)\<close> for an int: the value is normalised to days
  and seconds of the day (the microseconds are 0), and the constructor raises
  \<^verbatim>\<open>OverflowError\<close> when the days leave \<open>\<plusminus>999999999\<close>.\<close>

record timedelta =
  days :: int
  seconds :: int

definition timedelta_of_seconds :: "int \<Rightarrow> py_error + timedelta" where
  "timedelta_of_seconds isec =
     (let d = isec div 86400; s = isec mod 86400
      in if 999999999 < \<bar>d\<bar> then Inl OverflowError
         else Inr \<lparr>days = d, seconds = s\<rparr>)"

text \<open>\<^verbatim>\<open>timedelta.__str__\<close>: \<^verbatim>\<open>H:MM:SS\<close>, after
  \<^verbatim>\<open>D day, \<close> or \<^verbatim>\<open>D days, \<close> when the days are not 0.\<close>

definition str_timedelta :: "timedelta \<Rightarrow> pystr" where
  "str_timedelta td =
     (let mm = seconds td div 60; ss = seconds td mod 60;
          hh = mm div 60; mm' = mm mod 60;
          s = str_int hh @ asc '':'' @ zero_pad 2 (str_int mm') @ asc '':''
                @ zero_pad 2 (str_int ss)
      in if days td \<noteq> 0
         then str_int (days td) @ asc '' day''
                @ (if \<bar>days td\<bar> \<noteq> 1 then asc ''s'' else []) @ asc '', '' @ s
         else s)"

subsection \<open>The timestamp formatter\<close>

text \<open>
  \<^verbatim>\<open>
  def format_td(seconds:float, separator:str='.', digits:int=2):
      isec, fsec = divmod(round(seconds*10**digits), 10**digits)
      return f'{str(timedelta(seconds=isec)):0>8}{separator}{fsec:0{digits}.0f}'
  \<close>
  \<open>fsec\<close> is an int in \<open>[0, 10\<^sup>d\<^sup>i\<^sup>g\<^sup>i\<^sup>t\<^sup>s)\<close>; the presentation \<^verbatim>\<open>.0f\<close> converts
  it to a float and prints that float with no fractional digit.
\<close>

definition fmt_f0 :: "nat \<Rightarrow> int \<Rightarrow> py_error + pystr" where
  "fmt_f0 w n =
     (case int_to_float n of
        Inl e \<Rightarrow> Inl e
      | Inr (Finite q) \<Rightarrow> Inr (zero_pad w (str_int (round_half_even q)))
      | Inr _ \<Rightarrow> Inl OverflowError)"

definition format_td :: "pyfloat \<Rightarrow> pystr \<Rightarrow> nat \<Rightarrow> py_error + pystr" where
  "format_td secs separator digits =
     (case fmul_int secs (10 ^ digits) of
        Inl e \<Rightarrow> Inl e
      | Inr x \<Rightarrow>
         (case py_round x of
            Inl e \<Rightarrow> Inl e
          | Inr n \<Rightarrow>
             (let isec = n div 10 ^ digits; fsec = n mod 10 ^ digits
              in case timedelta_of_seconds isec of
                   Inl e \<Rightarrow> Inl e
                 | Inr td \<Rightarrow>
                    (case fmt_f0 digits fsec of
                       Inl e \<Rightarrow> Inl e
                     | Inr ff \<Rightarrow>
                         Inr (zero_pad 8 (str_timedelta td) @ separator @ ff)))))"

definition format_to_srt_ts :: "pyfloat \<Rightarrow> py_error + pystr" where
  "format_to_srt_ts secs = format_td secs (asc '','') 3"

subsection \<open>Strings: \<^verbatim>\<open>str.strip\<close>, \<^verbatim>\<open>pathlib.Path(...).stem\<close>\<close>

text \<open>\<^verbatim>\<open>str.isspace\<close> of one character: the white space of Unicode.\<close>

definition isspace :: "int \<Rightarrow> bool" where
  "isspace c \<longleftrightarrow>
     (9 \<le> c \<and> c \<le> 13) \<or> (28 \<le> c \<and> c \<le> 32) \<or> c = 133 \<or> c = 160 \<or> c = 5760
     \<or> (8192 \<le> c \<and> c \<le> 8202) \<or> c = 8232 \<or> c = 8233 \<or> c = 8239 \<or> c = 8287
     \<or> c = 12288"

text \<open>\<^verbatim>\<open>s.strip()\<close>: leading and trailing white space removed.\<close>

definition strip :: "pystr \<Rightarrow> pystr" where
  "strip s = rev (dropWhile isspace (rev (dropWhile isspace s)))"

text \<open>\<^verbatim>\<open>s.split(sep)\<close> for a separator of one character, and
  \<^verbatim>\<open>s.rfind(c)\<close>: the index of the last \<open>c\<close>, or \<open>-1\<close>.\<close>

fun split_on :: "int \<Rightarrow> pystr \<Rightarrow> pystr list" where
  "split_on sep [] = [[]]"
| "split_on sep (c # cs) =
     (if c = sep then [] # split_on sep cs
      else (case split_on sep cs of [] \<Rightarrow> [[c]] | h # t \<Rightarrow> (c # h) # t))"

fun rfind :: "int \<Rightarrow> pystr \<Rightarrow> int" where
  "rfind c [] = - 1"
| "rfind c (x # xs) =
     (let r = rfind c xs in if 0 \<le> r then r + 1 else if x = c then 0 else - 1)"

text \<open>\<^verbatim>\<open>Path(p).name\<close> on a POSIX system: the path is split at \<^verbatim>\<open>/\<close>, the
  empty components and the components \<^verbatim>\<open>.\<close> are dropped, and the name is the
  last component left (the empty string when there is none).
  \<^verbatim>\<open>Path(p).stem\<close> is the name without its last suffix (pathlib of Python 3.13
  and before):
  \<^verbatim>\<open>
      i = name.rfind('.')
      if 0 < i < len(name) - 1: return name[:i]
      else: return name
  \<close>\<close>

definition path_name :: "pystr \<Rightarrow> pystr" where
  "path_name p =
     (case filter (\<lambda>c. c \<noteq> [] \<and> c \<noteq> asc ''.'') (split_on 47 p) of
        [] \<Rightarrow> []
      | x # xs \<Rightarrow> last (x # xs))"

definition path_stem :: "pystr \<Rightarrow> pystr" where
  "path_stem p =
     (let name = path_name p; i = rfind 46 name
      in if 0 < i \<and> i < int (length name) - 1 then take (nat i) name else name)"

subsection \<open>The engine, the file system and the console\<close>

text \<open>
  A segment as the engine yields it; of its fields the program reads
  \<^verbatim>\<open>start\<close>, \<^verbatim>\<open>end\<close> and \<^verbatim>\<open>text\<close>, and never the
  \<^verbatim>\<open>id\<close>. The engine's generator of segments is a finite sequence of
  \<^verbatim>\<open>yield\<close>s that ends when the generator is exhausted (\<open>Stop\<close>) or when
  it raises (\<open>Raise\<close>): the audio file is finite, and the engine decodes it while
  the segments are consumed.
\<close>

record segment =
  seg_id :: int
  seg_start :: pyfloat
  seg_end :: pyfloat
  seg_text :: pystr

datatype segment_stream = Stop | Yield segment segment_stream | Raise py_error

record transcription_info =
  language :: pystr
  language_probability :: pyfloat

text \<open>\<^verbatim>\<open>WhisperModel(model_size, device=device, compute_type=compute_type)
  .transcribe(filepath, beam_size=5)\<close>: the engine is a parameter of the model. It
  raises, or it returns the generator and the information on the language. It
  writes no file.\<close>

type_synonym engine =
  "pystr \<Rightarrow> pystr \<Rightarrow> pystr \<Rightarrow> pystr \<Rightarrow> int
     \<Rightarrow> py_error + (segment_stream \<times> transcription_info)"

text \<open>What \<^verbatim>\<open>print\<close> receives: the values that the two f-strings of
  \<^verbatim>\<open>transcribe\<close> format.\<close>

datatype notification =
  DetectedLanguage pystr pyfloat
| Progress pyfloat pyfloat pystr

text \<open>
  The world of one run: the text files of the current directory by path, with the text
  that was written to them; the paths at which \<^verbatim>\<open>open(path, 'w')\<close> fails
  (\<^verbatim>\<open>OSError\<close>: no permission, a directory of that name, ...); the paths
  of the calls of \<^verbatim>\<open>open\<close> so far, oldest first; and the console. The file
  object encodes the text as UTF-8, a function of the text.
\<close>

record world =
  files :: "pystr \<rightharpoonup> pystr"
  unwritable :: "pystr \<Rightarrow> bool"
  opened :: "pystr list"
  stdout :: "notification list"

definition print :: "notification \<Rightarrow> world \<Rightarrow> world" where
  "print n w = w\<lparr>stdout := stdout w @ [n]\<rparr>"

text \<open>\<^verbatim>\<open>open(path, 'w', encoding='utf-8')\<close>: the file is created, or
  truncated when it exists.\<close>

definition open_w :: "pystr \<Rightarrow> world \<Rightarrow> world \<times> py_error option" where
  "open_w path w =
     (let w' = w\<lparr>opened := opened w @ [path]\<rparr>
      in if unwritable w path then (w', Some OSError)
         else (w'\<lparr>files := (files w')(path \<mapsto> [])\<rparr>, None))"

text \<open>\<^verbatim>\<open>f.writelines(lines)\<close>: each string is appended to the file, in order,
  with nothing between them.\<close>

definition write_str :: "pystr \<Rightarrow> pystr \<Rightarrow> world \<Rightarrow> world" where
  "write_str path l w =
     w\<lparr>files := (files w)(path \<mapsto> (case files w path of None \<Rightarrow> l | Some c \<Rightarrow> c @ l))\<rparr>"

definition writelines :: "pystr \<Rightarrow> pystr list \<Rightarrow> world \<Rightarrow> world" where
  "writelines path ls w = fold (write_str path) ls w"

subsection \<open>\<^verbatim>\<open>transcribe\<close>\<close>

text \<open>
  The loop that drains the generator:
  \<^verbatim>\<open>
    for segment in segments:
        if verbose:
            print(f"[{segment.start:.2f}s -> {segment.end:.2f}s] {segment.text}")
        transcribed_segments.append((segment.start, segment.end, segment.text))
  \<close>
\<close>

type_synonym transcribed = "pyfloat \<times> pyfloat \<times> pystr"

fun collect :: "bool \<Rightarrow> segment_stream \<Rightarrow> transcribed list \<Rightarrow> world
    \<Rightarrow> world \<times> (py_error + transcribed list)" where
  "collect verbose Stop acc w = (w, Inr acc)"
| "collect verbose (Raise e) acc w = (w, Inl e)"
| "collect verbose (Yield segment rest) acc w =
     collect verbose rest
       (acc @ [(seg_start segment, seg_end segment, seg_text segment)])
       (if verbose
        then print (Progress (seg_start segment) (seg_end segment) (seg_text segment)) w
        else w)"

text \<open>\<^verbatim>\<open>enumerate(xs, n)\<close>, and a list comprehension whose element expression can
  raise: the elements are computed from left to right and the first exception ends
  it.\<close>

fun py_enumerate :: "int \<Rightarrow> 'a list \<Rightarrow> (int \<times> 'a) list" where
  "py_enumerate n [] = []"
| "py_enumerate n (x # xs) = (n, x) # py_enumerate (n + 1) xs"

fun comprehension :: "('a \<Rightarrow> py_error + 'b) \<Rightarrow> 'a list \<Rightarrow> py_error + 'b list" where
  "comprehension f [] = Inr []"
| "comprehension f (x # xs) =
     (case f x of
        Inl e \<Rightarrow> Inl e
      | Inr y \<Rightarrow> (case comprehension f xs of Inl e \<Rightarrow> Inl e | Inr ys \<Rightarrow> Inr (y # ys)))"

text \<open>
  One element of \<^verbatim>\<open>groups\<close>:
  \<^verbatim>\<open>
    f"{counter}\n{format_to_srt_ts(s[0])} --> {format_to_srt_ts(s[1])}\n"
    f"{s[2].strip()}\n\n"
  \<close>
\<close>

definition srt_group :: "int \<times> transcribed \<Rightarrow> py_error + pystr" where
  "srt_group cs =
     (case cs of (counter, s0, s1, s2) \<Rightarrow>
        (case format_to_srt_ts s0 of
           Inl e \<Rightarrow> Inl e
         | Inr t0 \<Rightarrow>
            (case format_to_srt_ts s1 of
               Inl e \<Rightarrow> Inl e
             | Inr t1 \<Rightarrow>
                 Inr (str_int counter @ [10] @ t0 @ asc '' --> '' @ t1 @ [10]
                      @ strip s2 @ [10, 10]))))"

definition srt_groups :: "transcribed list \<Rightarrow> py_error + pystr list" where
  "srt_groups transcribed_segments =
     comprehension srt_group (py_enumerate 1 transcribed_segments)"

text \<open>
  \<^verbatim>\<open>
    with open(f'{filename}.txt', 'w', encoding='utf-8') as txt_writer:
        txt_writer.writelines(s[2] for s in transcribed_segments)
  \<close>
\<close>

definition write_txt :: "pystr \<Rightarrow> transcribed list \<Rightarrow> world \<Rightarrow> world \<times> py_error option" where
  "write_txt path transcribed_segments w =
     (case open_w path w of
        (w', Some e) \<Rightarrow> (w', Some e)
      | (w', None) \<Rightarrow>
          (writelines path (map (\<lambda>s. snd (snd s)) transcribed_segments) w', None))"

text \<open>
  \<^verbatim>\<open>
    with open(f'{filename}.srt', 'w', encoding='utf-8') as srt_writer:
        groups = [... for counter, s in enumerate(transcribed_segments, 1)]
        srt_writer.writelines(groups)
  \<close>
  The file is opened before the groups are computed.
\<close>

definition write_srt :: "pystr \<Rightarrow> transcribed list \<Rightarrow> world \<Rightarrow> world \<times> py_error option" where
  "write_srt path transcribed_segments w =
     (case open_w path w of
        (w', Some e) \<Rightarrow> (w', Some e)
      | (w', None) \<Rightarrow>
          (case srt_groups transcribed_segments of
             Inl e \<Rightarrow> (w', Some e)
           | Inr groups \<Rightarrow> (writelines path groups w', None)))"

text \<open>
  The last block of \<^verbatim>\<open>transcribe\<close>:
  \<^verbatim>\<open>
    if output_txt or output_srt:
        filename = Path(filepath).stem
        if output_txt: ...
        if output_srt: ...
  \<close>
  An exception that leaves the first \<^verbatim>\<open>with\<close> statement ends the function.
\<close>

definition write_artifacts :: "pystr \<Rightarrow> bool \<Rightarrow> bool \<Rightarrow> transcribed list \<Rightarrow> world
    \<Rightarrow> world \<times> py_error option" where
  "write_artifacts filepath output_txt output_srt transcribed_segments w =
     (if output_txt \<or> output_srt then
        (let filename = path_stem filepath
         in case (if output_txt
                  then write_txt (filename @ asc ''.txt'') transcribed_segments w
                  else (w, None)) of
              (w', Some e) \<Rightarrow> (w', Some e)
            | (w', None) \<Rightarrow>
                if output_srt
                then write_srt (filename @ asc ''.srt'') transcribed_segments w'
                else (w', None))
      else (w, None))"

text \<open>The function \<^verbatim>\<open>transcribe\<close>; the result is the world after the run and
  the exception that ended it, if any.\<close>

definition transcribe :: "engine \<Rightarrow> bool \<Rightarrow> pystr \<Rightarrow> pystr \<Rightarrow> pystr \<Rightarrow> pystr
    \<Rightarrow> bool \<Rightarrow> bool \<Rightarrow> world \<Rightarrow> world \<times> py_error option" where
  "transcribe whisper verbose model_size device compute_type filepath output_txt output_srt w =
     (case whisper model_size device compute_type filepath 5 of
        Inl e \<Rightarrow> (w, Some e)
      | Inr (segments, info) \<Rightarrow>
         (let w1 = (if verbose
                    then print (DetectedLanguage (language info) (language_probability info)) w
                    else w)
          in case collect verbose segments [] w1 of
               (w2, Inl e) \<Rightarrow> (w2, Some e)
             | (w2, Inr transcribed_segments) \<Rightarrow>
                 write_artifacts filepath output_txt output_srt transcribed_segments w2))"

text \<open>A generator that yields the segments of a list and then ends as \<open>fin\<close>.\<close>

fun yields :: "segment list \<Rightarrow> segment_stream \<Rightarrow> segment_stream" where
  "yields [] fin = fin"
| "yields (s # ss) fin = Yield s (yields ss fin)"

definition materialized :: "segment list \<Rightarrow> transcribed list" where
  "materialized ss = map (\<lambda>s. (seg_start s, seg_end s, seg_text s)) ss"

text \<open>Two worlds with the same files: they differ in the console at most.\<close>

definition same_fs :: "world \<Rightarrow> world \<Rightarrow> bool" where
  "same_fs w w' \<longleftrightarrow>
     files w = files w' \<and> unwritable w = unwritable w' \<and> opened w = opened w'"

subsection \<open>A run to evaluate\<close>

text \<open>The two segments of the example of the specification, with identifiers that are
  not their positions; an engine that returns a given generator; a world with no file,
  in which the paths of a list cannot be opened for writing.\<close>

definition demo_segments :: "segment list" where
  "demo_segments =
     [\<lparr>seg_id = 7, seg_start = Finite 0, seg_end = Finite (3 / 2), seg_text = asc ''Hello.''\<rparr>,
      \<lparr>seg_id = 3, seg_start = Finite (3 / 2), seg_end = Finite (13 / 4),
       seg_text = asc '' World.''\<rparr>]"

definition demo_engine :: "segment_stream \<Rightarrow> engine" where
  "demo_engine st model_size device compute_type filepath beam_size =
     Inr (st, \<lparr>language = asc ''en'', language_probability = Finite (99 / 100)\<rparr>)"

definition demo_world :: "pystr list \<Rightarrow> world" where
  "demo_world ro =
     \<lparr>files = Map.empty, unwritable = (\<lambda>p. p \<in> set ro), opened = [], stdout = []\<rparr>"

definition demo_run :: "segment_stream \<Rightarrow> bool \<Rightarrow> pystr \<Rightarrow> bool \<Rightarrow> bool \<Rightarrow> pystr list
    \<Rightarrow> world \<times> py_error option" where
  "demo_run st verbose filepath output_txt output_srt ro =
     transcribe (demo_engine st) verbose (asc ''small'') (asc ''auto'') (asc ''default'')
       filepath output_txt output_srt (demo_world ro)"

section \<open>Properties of the timestamp formatter\<close>

subsection \<open>Rounding to binary64\<close>

lemma bit_length_nonneg: "0 \<le> bit_length n"
  by (induction n rule: bit_length.induct) (subst bit_length.simps, simp)

lemma bit_length_pos: "1 \<le> n \<Longrightarrow> 1 \<le> bit_length n"
  using bit_length_nonneg [of "n div 2"] by (subst bit_length.simps) simp

lemma bit_length_le: "n < 2 ^ j \<Longrightarrow> bit_length n \<le> int j"
proof (induction j arbitrary: n)
  case 0
  then show ?case by (subst bit_length.simps) simp
next
  case (Suc j)
  show ?case
  proof (cases "n \<le> 0")
    case True
    then show ?thesis by (subst bit_length.simps) simp
  next
    case False
    from Suc.prems have "n div 2 < 2 ^ j" by simp
    from Suc.IH [OF this] False show ?thesis by (subst bit_length.simps) simp
  qed
qed

lemma pow2_powi: "pow2 e = 2 powi e"
  by (simp add: pow2_def power_int_def power_one_over)

lemma pow2_pos: "0 < pow2 e"
  by (simp add: pow2_powi)

lemma pow2_add: "pow2 (a + b) = pow2 a * pow2 b"
  by (simp add: pow2_powi power_int_add)

lemma pow2_nat: "pow2 (int k) = 2 ^ k"
  by (simp add: pow2_def)

lemma round_half_even_of_int [simp]: "round_half_even (of_int k) = k"
  by (simp add: round_half_even_def)

lemma round_half_even_le: "x \<le> of_int J \<Longrightarrow> round_half_even x \<le> J"
proof -
  assume a: "x \<le> of_int J"
  have f: "of_int \<lfloor>x\<rfloor> \<le> x" by simp
  have fJ: "\<lfloor>x\<rfloor> \<le> J" using a by (simp add: floor_le_iff) 
  show ?thesis
  proof (cases "x = of_int \<lfloor>x\<rfloor>")
    case True
    then show ?thesis using fJ by (simp add: round_half_even_def Let_def)
  next
    case False
    have "of_int \<lfloor>x\<rfloor> \<noteq> x" using False by auto
    with f have "of_int \<lfloor>x\<rfloor> < x" by (rule le_neq_trans)
    with a have "(of_int \<lfloor>x\<rfloor> :: rat) < of_int J" by simp
    then have "\<lfloor>x\<rfloor> < J" by simp
    then show ?thesis by (simp add: round_half_even_def Let_def)
  qed
qed

lemma round_half_even_ge: "of_int J \<le> x \<Longrightarrow> J \<le> round_half_even x"
proof -
  assume "of_int J \<le> x"
  then have "J \<le> \<lfloor>x\<rfloor>" by (simp add: le_floor_iff)
  then show ?thesis by (simp add: round_half_even_def Let_def)
qed

lemma floor_log2_of_int: "1 \<le> k \<Longrightarrow> floor_log2 (of_int k) = bit_length k - 1"
  by (simp add: floor_log2_def)

lemma fl_round_of_int:
  assumes "0 \<le> k" and "k < 2 ^ 53"
  shows "fl_round (of_int k) = Finite (of_int k)"
proof (cases "k = 0")
  case True
  then show ?thesis by (simp add: fl_round_def)
next
  case False
  with assms have k1: "1 \<le> k" by simp
  define b where "b = bit_length k"
  have b: "1 \<le> b" "b \<le> 53"
    using bit_length_pos [OF k1] bit_length_le [OF assms(2)] by (simp_all add: b_def)
  define n where "n = nat (53 - b)"
  have e: "max (floor_log2 (of_int k) - 52) (- 1074) = - int n"
    using b k1 by (simp add: floor_log2_of_int b_def [symmetric] n_def)
  have p: "pow2 (- int n) = 1 / 2 ^ n"
    by (simp add: pow2_def)
  have m: "round_half_even (of_int k / pow2 (- int n)) = k * 2 ^ n"
  proof -
    have "(of_int k :: rat) / pow2 (- int n) = of_int (k * 2 ^ n)" by (simp add: p)
    then show ?thesis by (simp only: round_half_even_of_int)
  qed
  have v: "(of_int (k * 2 ^ n) :: rat) * pow2 (- int n) = of_int k" by (simp add: p)
  have a: "\<bar>of_int k :: rat\<bar> = of_int k" using k1 by simp
  have pos: "(0::rat) < of_int k" using k1 by simp
  have nz: "(of_int k :: rat) \<noteq> 0" using k1 by simp
  show ?thesis
    unfolding fl_round_def Let_def a e m v using pos nz by simp
qed

lemma floor_log2_le:
  assumes "0 < a" and "a \<le> 2 ^ K"
  shows "floor_log2 a \<le> int K"
proof (cases "1 \<le> a")
  case True
  have fl: "\<lfloor>a\<rfloor> \<le> 2 ^ K"
  proof -
    have "a \<le> of_int (2 ^ K)" using assms(2) by simp
    then have "\<lfloor>a\<rfloor> \<le> \<lfloor>(of_int (2 ^ K) :: rat)\<rfloor>" by (rule floor_mono)
    then show ?thesis by simp
  qed
  have "(2::int) ^ K < 2 ^ Suc K" by simp
  with fl have "\<lfloor>a\<rfloor> < 2 ^ Suc K" by (rule le_less_trans)
  from bit_length_le [OF this] True show ?thesis by (simp add: floor_log2_def)
next
  case False
  then show ?thesis
    using bit_length_nonneg [of "\<lceil>1 / a\<rceil> - 1"] by (simp add: floor_log2_def)
qed

lemma fl_round_bound:
  assumes "\<bar>x\<bar> \<le> 2 ^ K" and "K \<le> 970"
  shows "\<exists>r. fl_round x = Finite r \<and> \<bar>r\<bar> \<le> 2 ^ K"
proof (cases "x = 0")
  case True
  then show ?thesis by (simp add: fl_round_def)
next
  case False
  define a where "a = \<bar>x\<bar>"
  have a: "0 < a" "a \<le> 2 ^ K" using False assms by (simp_all add: a_def)
  define e where "e = max (floor_log2 a - 52) (- 1074)"
  have eK: "e \<le> int K" using floor_log2_le [OF a] by (simp add: e_def)
  then have e971: "e < 971" using assms(2) by simp
  define m where "m = round_half_even (a / pow2 e)"
  define J :: int where "J = 2 ^ nat (int K - e)"
  have KJ: "(2::rat) ^ K = of_int J * pow2 e"
  proof -
    have "(2::rat) ^ K = pow2 ((int K - e) + e)" by (simp add: pow2_nat)
    also have "\<dots> = pow2 (int K - e) * pow2 e" by (rule pow2_add)
    also have "pow2 (int K - e) = of_int J" using eK by (simp add: pow2_def J_def)
    finally show ?thesis .
  qed
  have "a / pow2 e \<le> of_int J"
    using a(2) pow2_pos [of e] by (simp add: KJ pos_divide_le_eq)
  then have mJ: "m \<le> J" unfolding m_def by (rule round_half_even_le)
  have "(of_int 0 :: rat) \<le> a / pow2 e" using a(1) pow2_pos [of e] by simp
  then have m0: "0 \<le> m" unfolding m_def by (rule round_half_even_ge)
  have v0: "0 \<le> (of_int m :: rat) * pow2 e" using m0 pow2_pos [of e] by simp
  have vK: "(of_int m :: rat) * pow2 e \<le> 2 ^ K"
  proof -
    have "(of_int m :: rat) \<le> of_int J" using mJ by simp
    then have "(of_int m :: rat) * pow2 e \<le> of_int J * pow2 e"
      using pow2_pos [of e] by (simp add: mult_right_mono)
    then show ?thesis by (simp add: KJ)
  qed
  have "fl_round x = Finite (if 0 < x then of_int m * pow2 e else - (of_int m * pow2 e))"
    using False e971 by (simp add: fl_round_def Let_def a_def [symmetric] e_def [symmetric] m_def [symmetric])
  moreover have "\<bar>(if 0 < x then of_int m * pow2 e else - (of_int m * pow2 e))\<bar> \<le> 2 ^ K"
    using v0 vK by simp
  ultimately show ?thesis by blast
qed

subsection \<open>Digits and fields\<close>

lemma str_nat_digits: "0 \<le> n \<Longrightarrow> list_all is_digit (str_nat n)"
proof (induction n rule: str_nat.induct)
  case (1 n)
  show ?case
  proof (cases "n < 10")
    case True
    with "1.prems" have "is_digit (48 + n)" by (simp add: is_digit_def)
    with True show ?thesis by (subst str_nat.simps) simp
  next
    case False
    with "1.prems" have "0 \<le> n div 10" by simp
    from "1.IH" [OF False this] have IH: "list_all is_digit (str_nat (n div 10))" .
    have "0 \<le> n mod 10" and "n mod 10 < 10" by simp_all
    then have "is_digit (48 + n mod 10)" by (simp add: is_digit_def)
    with IH False show ?thesis by (subst str_nat.simps) simp
  qed
qed

lemma str_nat_length: "0 \<le> n \<Longrightarrow> n < 10 ^ d \<Longrightarrow> 1 \<le> d \<Longrightarrow> length (str_nat n) \<le> d"
proof (induction n arbitrary: d rule: str_nat.induct)
  case (1 n)
  show ?case
  proof (cases "n < 10")
    case True
    with "1.prems" show ?thesis by (subst str_nat.simps) simp
  next
    case False
    obtain d' where d: "d = Suc d'" using "1.prems"(3) by (cases d) simp_all
    have "1 \<le> d'"
    proof (rule ccontr)
      assume "\<not> 1 \<le> d'"
      then have "d = 1" using d by simp
      with "1.prems"(2) False show False by simp
    qed
    moreover have "n div 10 < 10 ^ d'" using "1.prems"(2) d by simp
    moreover have "0 \<le> n div 10" using "1.prems"(1) by simp
    ultimately have "length (str_nat (n div 10)) \<le> d'" using "1.IH" [OF False] by blast
    then show ?thesis using False d by (subst str_nat.simps) simp
  qed
qed

lemma length_zero_pad: "length (zero_pad w s) = max w (length s)"
  by (simp add: zero_pad_def)

lemma zero_pad_digits: "list_all is_digit s \<Longrightarrow> list_all is_digit (zero_pad w s)"
  by (auto simp: zero_pad_def is_digit_def list_all_iff)

lemma fraction_field:
  assumes "0 \<le> n" and "n < 10 ^ d" and "1 \<le> d"
  shows "length (zero_pad d (str_int n)) = d \<and> list_all is_digit (zero_pad d (str_int n))"
  using str_nat_length [OF assms] str_nat_digits [OF assms(1)] assms(1)
  by (simp add: length_zero_pad zero_pad_digits str_int_def)

lemma pow10_lt_2p53: "d \<le> 15 \<Longrightarrow> (10::int) ^ d < 2 ^ 53"
proof -
  assume "d \<le> 15"
  then have "(10::int) ^ d \<le> 10 ^ 15" by (intro power_increasing) simp_all
  also have "\<dots> < 2 ^ 53" by simp
  finally show ?thesis .
qed

lemma int_to_float_exact: "0 \<le> k \<Longrightarrow> k < 2 ^ 53 \<Longrightarrow> int_to_float k = Inr (Finite (of_int k))"
  by (simp add: int_to_float_def fl_round_of_int)

lemma fmt_f0_exact: "0 \<le> k \<Longrightarrow> k < 2 ^ 53 \<Longrightarrow> fmt_f0 w k = Inr (zero_pad w (str_int k))"
  by (simp add: fmt_f0_def int_to_float_exact)

lemma format_td_unfold:
  assumes "d \<le> 15"
  shows "format_td x sep d =
     (case py_round (fmul x (Finite (of_int (10 ^ d)))) of
        Inl e \<Rightarrow> Inl e
      | Inr n \<Rightarrow>
         (case timedelta_of_seconds (n div 10 ^ d) of
            Inl e \<Rightarrow> Inl e
          | Inr td \<Rightarrow>
              Inr (zero_pad 8 (str_timedelta td) @ sep @ zero_pad d (str_int (n mod 10 ^ d)))))"
proof -
  have p: "(10::int) ^ d < 2 ^ 53" by (rule pow10_lt_2p53 [OF assms])
  have m: "fmul_int x (10 ^ d) = Inr (fmul x (Finite (of_int (10 ^ d))))"
    using p by (simp add: fmul_int_def int_to_float_exact)
  have f: "fmt_f0 d (n mod 10 ^ d) = Inr (zero_pad d (str_int (n mod 10 ^ d)))" for n :: int
  proof (rule fmt_f0_exact)
    show "0 \<le> n mod 10 ^ d" by simp
    have "n mod 10 ^ d < 10 ^ d" by simp
    from this p show "n mod 10 ^ d < 2 ^ 53" by (rule less_trans)
  qed
  show ?thesis
    by (simp add: format_td_def m f Let_def split: sum.splits)
qed

lemma fl_round_not_NaN: "fl_round x \<noteq> NaN"
  by (simp add: fl_round_def Let_def)

lemma timedelta_error: "timedelta_of_seconds i = Inl e \<Longrightarrow> e = OverflowError"
  by (simp add: timedelta_of_seconds_def Let_def split: if_splits)

lemma py_round_fl_round_error: "py_round (fl_round x) = Inl e \<Longrightarrow> e = OverflowError"
  using fl_round_not_NaN [of x] by (cases "fl_round x") simp_all

lemma div_bound:
  fixes n p B :: int
  assumes "\<bar>n\<bar> \<le> B" and "1 \<le> p"
  shows "\<bar>n div p\<bar> \<le> B"
proof (cases "0 \<le> n")
  case True
  have "n div p \<le> n div 1" using True assms(2) by (intro zdiv_mono2) simp_all
  moreover have "0 \<le> n div p" using True assms(2) by (simp add: pos_imp_zdiv_nonneg_iff)
  ultimately show ?thesis using assms(1) by simp
next
  case False
  then have neg: "n < 0" by simp
  have "n div 1 \<le> n div p" using neg assms(2) by (intro zdiv_mono2_neg) simp_all
  moreover have "n div p < 0" using neg assms(2) by (simp add: div_neg_pos_less0)
  ultimately show ?thesis using assms(1) by simp
qed

lemma timedelta_in_range:
  assumes "\<bar>i\<bar> \<le> 2 ^ 46"
  shows "\<exists>td. timedelta_of_seconds i = Inr td"
proof -
  have "i div 86400 \<le> 2 ^ 46 div 86400" using assms by (intro zdiv_mono1) simp_all
  moreover have "(- (2 ^ 46)) div 86400 \<le> i div 86400" using assms by (intro zdiv_mono1) simp_all
  ultimately have "\<bar>i div 86400\<bar> \<le> 999999999" by simp
  then show ?thesis by (simp add: timedelta_of_seconds_def Let_def)
qed

lemma format_td_in_range:
  assumes d: "d \<le> 15" and q: "\<bar>q\<bar> * 10 ^ d \<le> 2 ^ 46"
  shows "\<exists>s. format_td (Finite q) sep d = Inr s"
proof -
  have "\<bar>q * of_int (10 ^ d)\<bar> \<le> 2 ^ 46" using q by (simp add: abs_mult)
  from fl_round_bound [OF this]
  obtain r where r: "fl_round (q * of_int (10 ^ d)) = Finite r" and rb: "\<bar>r\<bar> \<le> 2 ^ 46"
    by auto
  define n where "n = round_half_even r"
  have "r \<le> of_int (2 ^ 46)" using rb by simp
  then have "n \<le> 2 ^ 46" unfolding n_def by (rule round_half_even_le)
  moreover have "of_int (- (2 ^ 46)) \<le> r" using rb by simp
  then have "- (2 ^ 46) \<le> n" unfolding n_def by (rule round_half_even_ge)
  ultimately have nb: "\<bar>n\<bar> \<le> 2 ^ 46" by simp
  have "\<bar>n div 10 ^ d\<bar> \<le> 2 ^ 46" using nb by (rule div_bound) simp
  from timedelta_in_range [OF this] obtain td where "timedelta_of_seconds (n div 10 ^ d) = Inr td" ..
  then show ?thesis using r by (simp add: format_td_unfold [OF d] n_def)
qed

lemma div_lt_of_lt_mult:
  fixes n p c :: int
  assumes "0 < p" and "n < c * p"
  shows "n div p < c"
proof (rule ccontr)
  assume "\<not> n div p < c"
  then have "c \<le> n div p" by simp
  then have "c * p \<le> n div p * p" using assms(1) by (simp add: mult_right_mono)
  also have "n div p * p \<le> n"
  proof -
    have "0 \<le> n mod p" using assms(1) by simp
    with div_mult_mod_eq [of n p] show ?thesis by linarith
  qed
  finally show False using assms(2) by simp
qed

lemma two_digits:
  assumes "0 \<le> k" and "k < 100"
  shows "length (zero_pad 2 (str_int k)) = 2 \<and> list_all is_digit (zero_pad 2 (str_int k))"
proof -
  have "k < 10 ^ 2" using assms(2) by simp
  from fraction_field [OF assms(1) this] show ?thesis by simp
qed

lemma zero_pad_hms:
  assumes "length h \<le> 2" and "length m = 2" and "length s = 2"
  shows "zero_pad 8 (h @ asc '':'' @ m @ asc '':'' @ s) = zero_pad 2 h @ asc '':'' @ m @ asc '':'' @ s"
proof -
  have "8 - length (h @ asc '':'' @ m @ asc '':'' @ s) = 2 - length h"
    using assms by (simp add: asc_def)
  then show ?thesis by (simp add: zero_pad_def)
qed

lemma format_td_within_a_day:
  assumes d: "1 \<le> d" "d \<le> 15"
    and n: "py_round (fmul x (Finite (of_int (10 ^ d)))) = Inr n"
    and r: "0 \<le> n" "n < 86400 * 10 ^ d"
  shows "\<exists>hh mm ss ff.
           format_td x sep d = Inr (hh @ asc '':'' @ mm @ asc '':'' @ ss @ sep @ ff)
           \<and> hh = zero_pad 2 (str_int (n div 10 ^ d div 60 div 60))
           \<and> mm = zero_pad 2 (str_int (n div 10 ^ d div 60 mod 60))
           \<and> ss = zero_pad 2 (str_int (n div 10 ^ d mod 60))
           \<and> ff = zero_pad d (str_int (n mod 10 ^ d))
           \<and> length hh = 2 \<and> length mm = 2 \<and> length ss = 2 \<and> length ff = d
           \<and> list_all is_digit (hh @ mm @ ss @ ff)"
proof -
  define isec where "isec = n div 10 ^ d"
  have i0: "0 \<le> isec" using r(1) by (simp add: isec_def pos_imp_zdiv_nonneg_iff)
  have i1: "isec < 86400" unfolding isec_def using r(2) by (intro div_lt_of_lt_mult) simp_all
  have td: "timedelta_of_seconds isec = Inr \<lparr>days = 0, seconds = isec\<rparr>"
    using i0 i1 by (simp add: timedelta_of_seconds_def Let_def)
  define h where "h = isec div 60 div 60"
  define m where "m = isec div 60 mod 60"
  define s where "s = isec mod 60"
  have h0: "0 \<le> h" using i0 by (simp add: h_def pos_imp_zdiv_nonneg_iff)
  have "isec div 60 < 1440" using i1 by (intro div_lt_of_lt_mult) simp_all
  then have "h < 24" unfolding h_def by (intro div_lt_of_lt_mult) simp_all
  then have h1: "h < 100" by simp
  have m0: "0 \<le> m" "m < 100" and s0: "0 \<le> s" "s < 100"
  proof -
    have "0 \<le> m" "m < 60" "0 \<le> s" "s < 60" by (simp_all add: m_def s_def)
    then show "0 \<le> m" "m < 100" "0 \<le> s" "s < 100" by simp_all
  qed
  note H = two_digits [OF h0 h1] and M = two_digits [OF m0] and S = two_digits [OF s0]
  have hl: "length (str_int h) \<le> 2"
    using H by (simp add: length_zero_pad max_def split: if_splits)
  have st: "str_timedelta \<lparr>days = 0, seconds = isec\<rparr> =
      str_int h @ asc '':'' @ zero_pad 2 (str_int m) @ asc '':'' @ zero_pad 2 (str_int s)"
    by (simp add: str_timedelta_def Let_def h_def m_def s_def)
  have pad: "zero_pad 8 (str_timedelta \<lparr>days = 0, seconds = isec\<rparr>) =
      zero_pad 2 (str_int h) @ asc '':'' @ zero_pad 2 (str_int m) @ asc '':'' @ zero_pad 2 (str_int s)"
    unfolding st using hl M S by (intro zero_pad_hms) simp_all
  have "0 \<le> n mod 10 ^ d" and "n mod 10 ^ d < 10 ^ d" by simp_all
  note F = fraction_field [OF this d(1)]
  have "format_td x sep d =
      Inr ((zero_pad 2 (str_int h) @ asc '':'' @ zero_pad 2 (str_int m) @ asc '':''
            @ zero_pad 2 (str_int s)) @ sep @ zero_pad d (str_int (n mod 10 ^ d)))"
    using n td pad by (simp add: format_td_unfold [OF d(2)] isec_def [symmetric])
  then show ?thesis
    using H M S F by (simp add: h_def m_def s_def isec_def)
qed


subsection \<open>The shape of a timestamp\<close>

text \<open>
  C1. The claim holds below one day (lemma \<open>format_td_within_a_day\<close>: two digits
  each for hours, minutes and seconds, the separator, and the fraction in exactly
  \<open>digits\<close> digits) and fails from 24 hours on:
  \<^verbatim>\<open>str(timedelta(seconds=isec))\<close> then starts with the days, so that 90000
  seconds (25 hours) are formatted as \<^verbatim>\<open>1 day, 1:00:00,000\<close> by the SRT preset and
  as \<^verbatim>\<open>1 day, 1:00:00.00\<close> by the plain preset, not as \<^verbatim>\<open>25:00:00,000\<close>
  and \<^verbatim>\<open>25:00:00.00\<close>; 86400 seconds give \<^verbatim>\<open>1 day, 0:00:00,000\<close>, and
  86399.9 seconds still give \<^verbatim>\<open>23:59:59,900\<close>.
\<close>

theorem day_component_beyond_24h:
  "format_to_srt_ts (Finite 90000) = Inr (asc ''1 day, 1:00:00,000'')
   \<and> format_td (Finite 90000) (asc ''.'') 2 = Inr (asc ''1 day, 1:00:00.00'')
   \<and> format_to_srt_ts (Finite 86400) = Inr (asc ''1 day, 0:00:00,000'')
   \<and> format_to_srt_ts (fl_round (863999 / 10)) = Inr (asc ''23:59:59,900'')"
  by code_simp

subsection \<open>The carry of the rounding\<close>

text \<open>
  C2. The SRT preset formats 59.9996 as \<^verbatim>\<open>00:01:00,000\<close> and the plain preset
  formats 59.999 as \<^verbatim>\<open>00:01:00.00\<close>. In general, for 1 to 15 digits, whenever
  the formatter returns a string, that string is the padded rendering of the whole
  seconds \<open>n div 10\<^sup>d\<close>, the separator, and the remainder \<open>n mod 10\<^sup>d\<close> in exactly
  \<open>d\<close> decimal digits, where \<open>n\<close> is the rounded product: the fraction cannot
  overflow its field, and what the rounding adds beyond it is carried into the seconds.
\<close>

theorem rounding_carries_into_seconds:
  "format_to_srt_ts (fl_round (599996 / 10000)) = Inr (asc ''00:01:00,000'')
   \<and> format_td (fl_round (59999 / 1000)) (asc ''.'') 2 = Inr (asc ''00:01:00.00'')
   \<and> (1 \<le> d \<and> d \<le> 15 \<and> format_td x sep d = Inr s \<longrightarrow>
        (\<exists>n td. py_round (fmul x (Finite (of_int (10 ^ d)))) = Inr n
           \<and> timedelta_of_seconds (n div 10 ^ d) = Inr td
           \<and> s = zero_pad 8 (str_timedelta td) @ sep @ zero_pad d (str_int (n mod 10 ^ d))
           \<and> length (zero_pad d (str_int (n mod 10 ^ d))) = d
           \<and> list_all is_digit (zero_pad d (str_int (n mod 10 ^ d)))))"
proof (intro conjI impI)
  show "format_to_srt_ts (fl_round (599996 / 10000)) = Inr (asc ''00:01:00,000'')"
    by code_simp
  show "format_td (fl_round (59999 / 1000)) (asc ''.'') 2 = Inr (asc ''00:01:00.00'')"
    by code_simp
next
  assume a: "1 \<le> d \<and> d \<le> 15 \<and> format_td x sep d = Inr s"
  then have d: "1 \<le> d" "d \<le> 15" and s: "format_td x sep d = Inr s" by simp_all
  from s obtain n td where n: "py_round (fmul x (Finite (of_int (10 ^ d)))) = Inr n"
    and td: "timedelta_of_seconds (n div 10 ^ d) = Inr td"
    and eq: "s = zero_pad 8 (str_timedelta td) @ sep @ zero_pad d (str_int (n mod 10 ^ d))"
    unfolding format_td_unfold [OF d(2)] by (auto split: sum.splits)
  have "0 \<le> n mod 10 ^ d" and "n mod 10 ^ d < 10 ^ d" by simp_all
  from fraction_field [OF this d(1)] n td eq
  show "\<exists>n td. py_round (fmul x (Finite (of_int (10 ^ d)))) = Inr n
           \<and> timedelta_of_seconds (n div 10 ^ d) = Inr td
           \<and> s = zero_pad 8 (str_timedelta td) @ sep @ zero_pad d (str_int (n mod 10 ^ d))
           \<and> length (zero_pad d (str_int (n mod 10 ^ d))) = d
           \<and> list_all is_digit (zero_pad d (str_int (n mod 10 ^ d)))"
    by blast
qed

theorem rounding_carries_into_seconds_witness:
  "py_round (fmul (fl_round (599996 / 10000)) (Finite (of_int (10 ^ 3)))) = Inr 60000
   \<and> (\<exists>n td. py_round (fmul (fl_round (599996 / 10000)) (Finite (of_int (10 ^ 3)))) = Inr n
         \<and> timedelta_of_seconds (n div 10 ^ 3) = Inr td
         \<and> asc ''00:01:00,000''
             = zero_pad 8 (str_timedelta td) @ asc '','' @ zero_pad 3 (str_int (n mod 10 ^ 3))
         \<and> length (zero_pad 3 (str_int (n mod 10 ^ 3))) = 3
         \<and> list_all is_digit (zero_pad 3 (str_int (n mod 10 ^ 3))))"
proof -
  have h: "format_td (fl_round (599996 / 10000)) (asc '','') 3 = Inr (asc ''00:01:00,000'')"
    by code_simp
  have n: "py_round (fmul (fl_round (599996 / 10000)) (Finite (of_int (10 ^ 3)))) = Inr 60000"
    by code_simp
  from rounding_carries_into_seconds [of 3 "fl_round (599996 / 10000)" "asc '',''"
      "asc ''00:01:00,000''"] h n
  show ?thesis by simp
qed

subsection \<open>Errors of the formatter\<close>




section \<open>Properties of the pipeline\<close>

subsection \<open>The loop and the writers keep to their files\<close>

lemma same_fs_refl [simp]: "same_fs w w"
  by (simp add: same_fs_def)

lemma same_fs_print [simp]: "same_fs (print n w) w' = same_fs w w'" "same_fs w (print n w') = same_fs w w'"
  by (simp_all add: same_fs_def print_def)

lemma same_fs_trans: "same_fs a b \<Longrightarrow> same_fs b c \<Longrightarrow> same_fs a c"
  by (simp add: same_fs_def)

lemma same_fs_sym: "same_fs a b \<Longrightarrow> same_fs b a"
  by (simp add: same_fs_def)

lemma collect_same_fs: "same_fs (fst (collect v st acc w)) w"
  by (induction st arbitrary: acc w) (auto simp: same_fs_def print_def)

lemma collect_result: "snd (collect v st acc w) = snd (collect v' st acc w')"
proof (induction st arbitrary: acc w w')
  case (Yield s rest)
  show ?case by (simp only: collect.simps) (rule Yield.IH)
qed simp_all

lemma collect_yields_Stop: "snd (collect v (yields ss Stop) acc w) = Inr (acc @ materialized ss)"
  by (induction ss arbitrary: acc w) (simp_all add: materialized_def)

lemma collect_yields_Raise: "snd (collect v (yields ss (Raise e)) acc w) = Inl e"
  by (induction ss arbitrary: acc w) simp_all

lemma stream_cases: "(\<exists>ss. st = yields ss Stop) \<or> (\<exists>ss e. st = yields ss (Raise e))"
proof (induction st)
  case Stop
  have "Stop = yields [] Stop" by simp
  then show ?case by blast
next
  case (Raise e)
  have "Raise e = yields [] (Raise e)" by simp
  then show ?case by blast
next
  case (Yield s rest)
  then show ?case
  proof
    assume "\<exists>ss. rest = yields ss Stop"
    then obtain ss where "rest = yields ss Stop" ..
    then have "Yield s rest = yields (s # ss) Stop" by simp
    then show ?thesis by blast
  next
    assume "\<exists>ss e. rest = yields ss (Raise e)"
    then obtain ss e where "rest = yields ss (Raise e)" by blast
    then have "Yield s rest = yields (s # ss) (Raise e)" by simp
    then show ?thesis by blast
  qed
qed

lemma open_w_same:
  "same_fs w w' \<Longrightarrow> same_fs (fst (open_w p w)) (fst (open_w p w')) \<and> snd (open_w p w) = snd (open_w p w')"
  by (simp add: same_fs_def open_w_def Let_def)

lemma write_str_same: "same_fs w w' \<Longrightarrow> same_fs (write_str p l w) (write_str p l w')"
  by (simp add: same_fs_def write_str_def)

lemma writelines_same: "same_fs w w' \<Longrightarrow> same_fs (writelines p ls w) (writelines p ls w')"
  unfolding writelines_def
  by (induction ls arbitrary: w w') (simp_all add: write_str_same)

lemma write_txt_same:
  "same_fs w w' \<Longrightarrow> same_fs (fst (write_txt p segs w)) (fst (write_txt p segs w')) \<and> snd (write_txt p segs w) = snd (write_txt p segs w')"
  using open_w_same [of w w' p]
  by (auto simp: write_txt_def writelines_same split: prod.splits option.splits)

lemma write_srt_same:
  "same_fs w w' \<Longrightarrow> same_fs (fst (write_srt p segs w)) (fst (write_srt p segs w')) \<and> snd (write_srt p segs w) = snd (write_srt p segs w')"
  using open_w_same [of w w' p]
  by (auto simp: write_srt_def writelines_same split: prod.splits option.splits sum.splits)


lemma write_artifacts_same:
  assumes "same_fs w w'"
  shows "same_fs (fst (write_artifacts fp otxt osrt segs w)) (fst (write_artifacts fp otxt osrt segs w'))
       \<and> snd (write_artifacts fp otxt osrt segs w) = snd (write_artifacts fp otxt osrt segs w')"
proof -
  let ?t = "path_stem fp @ asc ''.txt''" and ?s = "path_stem fp @ asc ''.srt''"
  note T = write_txt_same [OF assms, of "?t" segs]
  show ?thesis
  proof (cases otxt)
    case True
    show ?thesis
    proof (cases "snd (write_txt ?t segs w)")
      case None
      with T have N': "snd (write_txt ?t segs w') = None" by simp
      from T have S: "same_fs (fst (write_txt ?t segs w)) (fst (write_txt ?t segs w'))" by simp
      show ?thesis
        using True None N' write_srt_same [OF S, of "?s" segs] S
        by (simp add: write_artifacts_def Let_def split_beta)
    next
      case (Some e)
      with T have N': "snd (write_txt ?t segs w') = Some e" by simp
      show ?thesis
        using True Some N' T
        by (simp add: write_artifacts_def Let_def split_beta)
    qed
  next
    case False
    show ?thesis
      using False write_srt_same [OF assms, of "?s" segs] assms
      by (simp add: write_artifacts_def Let_def)
  qed
qed

lemma write_artifacts_none:
  "\<not> otxt \<Longrightarrow> \<not> osrt \<Longrightarrow> write_artifacts fp otxt osrt segs w = (w, None)"
  by (simp add: write_artifacts_def)

lemma transcribe_Inl:
  "whisper ms dev ct fp 5 = Inl e \<Longrightarrow> transcribe whisper v ms dev ct fp otxt osrt w = (w, Some e)"
  by (simp add: transcribe_def)

lemma transcribe_Inr:
  assumes "whisper ms dev ct fp 5 = Inr (segments, info)"
    and "collect v segments []
           (if v then print (DetectedLanguage (language info) (language_probability info)) w
            else w) = (w2, r)"
  shows "transcribe whisper v ms dev ct fp otxt osrt w =
           (case r of Inl e \<Rightarrow> (w2, Some e)
            | Inr segs \<Rightarrow> write_artifacts fp otxt osrt segs w2)"
  using assms by (simp add: transcribe_def Let_def split: sum.splits)

subsection \<open>The progress output\<close>


subsection \<open>No flag, no file\<close>

text \<open>
  C9. When neither \<^verbatim>\<open>--txt\<close> nor \<^verbatim>\<open>--srt\<close> is set, the run leaves every
  file as it was and opens none, whatever the engine produced and however the run ends.
\<close>

theorem no_flag_no_file:
  assumes "\<not> otxt" and "\<not> osrt"
  shows "files (fst (transcribe whisper v ms dev ct fp otxt osrt w)) = files w
       \<and> opened (fst (transcribe whisper v ms dev ct fp otxt osrt w)) = opened w"
proof -
  have "same_fs (fst (transcribe whisper v ms dev ct fp otxt osrt w)) w"
  proof (cases "whisper ms dev ct fp 5")
    case (Inl e)
    then show ?thesis by (simp add: transcribe_Inl)
  next
    case (Inr r)
    obtain segments info where r: "r = (segments, info)" by (cases r)
    let ?w1 = "if v then print (DetectedLanguage (language info) (language_probability info)) w
               else w"
    obtain w2 res where c: "collect v segments [] ?w1 = (w2, res)"
      by (cases "collect v segments [] ?w1")
    have fs: "same_fs w2 w"
      using collect_same_fs [of v segments "[]" "?w1"] c by (simp add: same_fs_def print_def)
    show ?thesis
      using transcribe_Inr [of whisper ms dev ct fp segments info v w w2 res] Inr r c fs assms
      by (simp add: write_artifacts_none split: sum.splits)
  qed
  then show ?thesis by (simp add: same_fs_def)
qed

theorem no_flag_no_file_witness:
  "files (fst (demo_run (yields demo_segments Stop) True (asc ''/data/talk.mp3'') False False []))
     = Map.empty
   \<and> opened (fst (demo_run (yields demo_segments Stop) True (asc ''/data/talk.mp3'')
        False False [])) = []"
  using no_flag_no_file [of False False "demo_engine (yields demo_segments Stop)" True
      "asc ''small''" "asc ''auto''" "asc ''default''" "asc ''/data/talk.mp3''" "demo_world []"]
  by (simp add: demo_run_def demo_world_def)

subsection \<open>A failure of the engine\<close>

text \<open>
  C5. When the generator of the engine raises after it has yielded any number of
  segments, the run ends with that exception, no file is opened and every file is as it
  was before the run: nothing is rendered or written.
\<close>

theorem engine_failure_writes_nothing:
  assumes "whisper ms dev ct fp 5 = Inr (yields ss (Raise e), info)"
  shows "snd (transcribe whisper v ms dev ct fp otxt osrt w) = Some e
       \<and> files (fst (transcribe whisper v ms dev ct fp otxt osrt w)) = files w
       \<and> opened (fst (transcribe whisper v ms dev ct fp otxt osrt w)) = opened w"
proof -
  let ?w1 = "if v then print (DetectedLanguage (language info) (language_probability info)) w
             else w"
  obtain w2 res where c: "collect v (yields ss (Raise e)) [] ?w1 = (w2, res)"
    by (cases "collect v (yields ss (Raise e)) [] ?w1")
  have fs: "same_fs w2 w"
    using collect_same_fs [of v "yields ss (Raise e)" "[]" "?w1"] c
    by (simp add: same_fs_def print_def)
  have res: "res = Inl e"
    using collect_yields_Raise [of v ss e "[]" "?w1"] c by simp
  show ?thesis
    using transcribe_Inr [of whisper ms dev ct fp "yields ss (Raise e)" info v w w2 res]
      assms c fs res
    by (simp add: same_fs_def)
qed

theorem engine_failure_writes_nothing_witness:
  "snd (demo_run (yields demo_segments (Raise EngineError)) True (asc ''/data/talk.mp3'')
          True True []) = Some EngineError
   \<and> files (fst (demo_run (yields demo_segments (Raise EngineError)) True
          (asc ''/data/talk.mp3'') True True [])) = Map.empty
   \<and> opened (fst (demo_run (yields demo_segments (Raise EngineError)) True
          (asc ''/data/talk.mp3'') True True [])) = []"
  using engine_failure_writes_nothing [of "demo_engine (yields demo_segments (Raise EngineError))"
      "asc ''small''" "asc ''auto''" "asc ''default''" "asc ''/data/talk.mp3''"
      demo_segments EngineError
      "\<lparr>language = asc ''en'', language_probability = Finite (99 / 100)\<rparr>"
      True True True "demo_world []"]
  by (simp add: demo_run_def demo_world_def demo_engine_def)

subsection \<open>What the writers leave in the files\<close>


lemma write_str_other: "q \<noteq> p \<Longrightarrow> files (write_str p l w) q = files w q"
  by (simp add: write_str_def)

lemma write_str_meta [simp]:
  "opened (write_str p l w) = opened w" "unwritable (write_str p l w) = unwritable w"
  "stdout (write_str p l w) = stdout w"
  by (simp_all add: write_str_def)

lemma writelines_meta [simp]:
  "opened (writelines p ls w) = opened w" "unwritable (writelines p ls w) = unwritable w"
  "stdout (writelines p ls w) = stdout w"
  unfolding writelines_def by (induction ls arbitrary: w) simp_all

lemma writelines_other: "q \<noteq> p \<Longrightarrow> files (writelines p ls w) q = files w q"
  unfolding writelines_def by (induction ls arbitrary: w) (simp_all add: write_str_other)

lemma writelines_content:
  "files w p = Some c \<Longrightarrow> files (writelines p ls w) p = Some (c @ concat ls)"
  unfolding writelines_def
proof (induction ls arbitrary: w c)
  case Nil
  then show ?case by simp
next
  case (Cons l ls)
  have "files (write_str p l w) p = Some (c @ l)"
    using Cons.prems by (simp add: write_str_def)
  from Cons.IH [OF this] show ?case by simp
qed

lemma open_w_ok:
  "\<not> unwritable w p \<Longrightarrow>
     snd (open_w p w) = None \<and> files (fst (open_w p w)) = (files w)(p \<mapsto> [])
     \<and> opened (fst (open_w p w)) = opened w @ [p]
     \<and> unwritable (fst (open_w p w)) = unwritable w"
  by (simp add: open_w_def Let_def)

lemma open_w_fail:
  "unwritable w p \<Longrightarrow>
     snd (open_w p w) = Some OSError \<and> files (fst (open_w p w)) = files w
     \<and> opened (fst (open_w p w)) = opened w @ [p]
     \<and> unwritable (fst (open_w p w)) = unwritable w"
  by (simp add: open_w_def Let_def)

lemma write_txt_ok:
  assumes "\<not> unwritable w p"
  shows "snd (write_txt p segs w) = None
       \<and> files (fst (write_txt p segs w)) p = Some (concat (map (\<lambda>s. snd (snd s)) segs))
       \<and> (\<forall>q. q \<noteq> p \<longrightarrow> files (fst (write_txt p segs w)) q = files w q)
       \<and> opened (fst (write_txt p segs w)) = opened w @ [p]
       \<and> unwritable (fst (write_txt p segs w)) = unwritable w"
proof -
  obtain w' where o: "open_w p w = (w', None)"
    using open_w_ok [OF assms] by (cases "open_w p w") simp
  have w': "files w' = (files w)(p \<mapsto> [])" "opened w' = opened w @ [p]"
    "unwritable w' = unwritable w"
    using open_w_ok [OF assms] o by simp_all
  have "files w' p = Some []" using w' by simp
  from writelines_content [OF this]
  show ?thesis using o w' by (simp add: write_txt_def writelines_other)
qed

lemma write_txt_fail:
  assumes "unwritable w p"
  shows "snd (write_txt p segs w) = Some OSError
       \<and> files (fst (write_txt p segs w)) = files w
       \<and> opened (fst (write_txt p segs w)) = opened w @ [p]
       \<and> unwritable (fst (write_txt p segs w)) = unwritable w"
proof -
  obtain w' where o: "open_w p w = (w', Some OSError)"
    using open_w_fail [OF assms] by (cases "open_w p w") simp
  show ?thesis using open_w_fail [OF assms] o by (simp add: write_txt_def)
qed

lemma write_srt_fail:
  assumes "unwritable w p"
  shows "snd (write_srt p segs w) = Some OSError
       \<and> files (fst (write_srt p segs w)) = files w
       \<and> opened (fst (write_srt p segs w)) = opened w @ [p]
       \<and> unwritable (fst (write_srt p segs w)) = unwritable w"
proof -
  obtain w' where o: "open_w p w = (w', Some OSError)"
    using open_w_fail [OF assms] by (cases "open_w p w") simp
  show ?thesis using open_w_fail [OF assms] o by (simp add: write_srt_def)
qed

lemma write_srt_ok:
  assumes "\<not> unwritable w p" and "srt_groups segs = Inr groups"
  shows "snd (write_srt p segs w) = None
       \<and> files (fst (write_srt p segs w)) p = Some (concat groups)
       \<and> (\<forall>q. q \<noteq> p \<longrightarrow> files (fst (write_srt p segs w)) q = files w q)
       \<and> opened (fst (write_srt p segs w)) = opened w @ [p]
       \<and> unwritable (fst (write_srt p segs w)) = unwritable w"
proof -
  obtain w' where o: "open_w p w = (w', None)"
    using open_w_ok [OF assms(1)] by (cases "open_w p w") simp
  have w': "files w' = (files w)(p \<mapsto> [])" "opened w' = opened w @ [p]"
    "unwritable w' = unwritable w"
    using open_w_ok [OF assms(1)] o by simp_all
  have "files w' p = Some []" using w' by simp
  from writelines_content [OF this]
  show ?thesis using o w' assms(2) by (simp add: write_srt_def writelines_other)
qed

lemma write_srt_other:
  "q \<noteq> p \<Longrightarrow> files (fst (write_srt p segs w)) q = files w q"
  by (auto simp: write_srt_def open_w_def Let_def writelines_other split: sum.splits)

lemma write_txt_other:
  "q \<noteq> p \<Longrightarrow> files (fst (write_txt p segs w)) q = files w q"
  by (auto simp: write_txt_def open_w_def Let_def writelines_other)

lemma length_py_enumerate [simp]: "length (py_enumerate n xs) = length xs"
  by (induction xs arbitrary: n) simp_all

lemma nth_py_enumerate: "i < length xs \<Longrightarrow> py_enumerate n xs ! i = (n + int i, xs ! i)"
proof (induction xs arbitrary: n i)
  case Nil
  then show ?case by simp
next
  case (Cons x xs)
  show ?case
  proof (cases i)
    case 0
    then show ?thesis by simp
  next
    case (Suc j)
    with Cons.prems have "j < length xs" by simp
    from Cons.IH [OF this, of "n + 1"] Suc show ?thesis by simp
  qed
qed

lemma comprehension_Inr:
  "comprehension f xs = Inr ys \<Longrightarrow>
     length ys = length xs \<and> (\<forall>i < length xs. f (xs ! i) = Inr (ys ! i))"
proof (induction xs arbitrary: ys)
  case Nil
  then show ?case by simp
next
  case (Cons x xs)
  from Cons.prems obtain y ys' where y: "f x = Inr y" and ys': "comprehension f xs = Inr ys'"
    and ys: "ys = y # ys'"
    by (auto split: sum.splits)
  from Cons.IH [OF ys'] have IH: "length ys' = length xs" "\<forall>i<length xs. f (xs ! i) = Inr (ys' ! i)"
    by simp_all
  show ?case
  proof (intro conjI allI impI)
    show "length ys = length (x # xs)" using IH ys by simp
  next
    fix i assume "i < length (x # xs)"
    then show "f ((x # xs) ! i) = Inr (ys ! i)"
      using IH y ys by (cases i) simp_all
  qed
qed

lemma comprehension_total:
  "list_all (\<lambda>x. \<not> isl (f x)) xs \<Longrightarrow> \<exists>ys. comprehension f xs = Inr ys"
proof (induction xs)
  case Nil
  then show ?case by simp
next
  case (Cons x xs)
  then obtain ys where "comprehension f xs = Inr ys" by auto
  moreover from Cons.prems obtain y where "f x = Inr y" by (cases "f x") simp_all
  ultimately show ?case by simp
qed

lemma srt_group_ok:
  assumes "\<not> isl (format_to_srt_ts a)" and "\<not> isl (format_to_srt_ts b)"
  shows "srt_group (k, a, b, t) =
     Inr (str_int k @ [10] @ projr (format_to_srt_ts a) @ asc '' --> ''
          @ projr (format_to_srt_ts b) @ [10] @ strip t @ [10, 10])"
  using assms by (cases "format_to_srt_ts a"; cases "format_to_srt_ts b") (simp_all add: srt_group_def)

subsection \<open>The SRT document\<close>



text \<open>The example of the specification, run through \<^verbatim>\<open>transcribe\<close>.\<close>

lemma srt_example:
  "files (fst (demo_run (yields demo_segments Stop) False (asc ''/data/talk.mp3'') True True []))
     (asc ''talk.srt'')
   = Some (asc ''1\<newline>00:00:00,000 --> 00:00:01,500\<newline>Hello.\<newline>\<newline>2\<newline>00:00:01,500 --> 00:00:03,250\<newline>World.\<newline>\<newline>'')"
  by code_simp

subsection \<open>The plain text\<close>

text \<open>
  C4. The \<^verbatim>\<open>.txt\<close> file holds the texts of the segments, each as the engine gave
  it, one after the other in order, and nothing else: no separator, no timestamp. In the
  group of the SRT document the same text stands without its leading and trailing white
  space. The text \<^verbatim>\<open>"  hello world  "\<close> is written to the \<^verbatim>\<open>.txt\<close> file
  as it is and stands as \<^verbatim>\<open>"hello world"\<close> in its SRT group.
\<close>

theorem plain_text_verbatim_srt_trimmed:
  "(\<not> unwritable w p \<longrightarrow>
      snd (write_txt p segs w) = None
      \<and> files (fst (write_txt p segs w)) p = Some (concat (map (\<lambda>s. snd (snd s)) segs)))
   \<and> (\<not> isl (format_to_srt_ts a) \<and> \<not> isl (format_to_srt_ts b) \<longrightarrow>
      srt_group (k, a, b, t) =
        Inr (str_int k @ [10] @ projr (format_to_srt_ts a) @ asc '' --> ''
             @ projr (format_to_srt_ts b) @ [10] @ strip t @ [10, 10]))
   \<and> strip (asc ''  hello world  '') = asc ''hello world''
   \<and> files (fst (write_txt (asc ''talk.txt'')
        [(Finite 0, Finite 1, asc ''  hello world  '')] (demo_world []))) (asc ''talk.txt'')
       = Some (asc ''  hello world  '')
   \<and> srt_group (1, Finite 0, Finite 1, asc ''  hello world  '')
       = Inr (asc ''1\<newline>00:00:00,000 --> 00:00:01,000\<newline>hello world\<newline>\<newline>'')"
proof (intro conjI)
  show "\<not> unwritable w p \<longrightarrow>
      snd (write_txt p segs w) = None
      \<and> files (fst (write_txt p segs w)) p = Some (concat (map (\<lambda>s. snd (snd s)) segs))"
    using write_txt_ok [of w p segs] by simp
  show "\<not> isl (format_to_srt_ts a) \<and> \<not> isl (format_to_srt_ts b) \<longrightarrow>
      srt_group (k, a, b, t) =
        Inr (str_int k @ [10] @ projr (format_to_srt_ts a) @ asc '' --> ''
             @ projr (format_to_srt_ts b) @ [10] @ strip t @ [10, 10])"
    using srt_group_ok [of a b k t] by simp
  show "strip (asc ''  hello world  '') = asc ''hello world''"
    by code_simp
  show "files (fst (write_txt (asc ''talk.txt'')
        [(Finite 0, Finite 1, asc ''  hello world  '')] (demo_world []))) (asc ''talk.txt'')
       = Some (asc ''  hello world  '')"
    by code_simp
  show "srt_group (1, Finite 0, Finite 1, asc ''  hello world  '')
       = Inr (asc ''1\<newline>00:00:00,000 --> 00:00:01,000\<newline>hello world\<newline>\<newline>'')"
    by code_simp
qed

theorem plain_text_verbatim_srt_trimmed_witness:
  "files (fst (write_txt (asc ''talk.txt'') (materialized demo_segments) (demo_world [])))
      (asc ''talk.txt'') = Some (asc ''Hello. World.'')
   \<and> srt_group (2, Finite (3 / 2), Finite (13 / 4), asc '' World.'')
       = Inr (asc ''2\<newline>00:00:01,500 --> 00:00:03,250\<newline>World.\<newline>\<newline>'')"
proof -
  have wr: "\<not> unwritable (demo_world []) (asc ''talk.txt'')"
    by (simp add: demo_world_def)
  have a: "\<not> isl (format_to_srt_ts (Finite (3 / 2)))" by code_simp
  have b: "\<not> isl (format_to_srt_ts (Finite (13 / 4)))" by code_simp
  have c: "concat (map (\<lambda>s. snd (snd s)) (materialized demo_segments)) = asc ''Hello. World.''"
    by code_simp
  have d: "str_int 2 @ [10] @ projr (format_to_srt_ts (Finite (3 / 2))) @ asc '' --> ''
             @ projr (format_to_srt_ts (Finite (13 / 4))) @ [10] @ strip (asc '' World.'') @ [10, 10]
           = asc ''2\<newline>00:00:01,500 --> 00:00:03,250\<newline>World.\<newline>\<newline>''"
    by code_simp
  from plain_text_verbatim_srt_trimmed [of "demo_world []" "asc ''talk.txt''"
      "materialized demo_segments" "Finite (3 / 2)" "Finite (13 / 4)" 2 "asc '' World.''"]
  show ?thesis using wr a b c d by simp
qed

subsection \<open>The two writes\<close>

lemma txt_neq_srt: "x @ asc ''.txt'' \<noteq> x @ asc ''.srt''"
  by (simp add: asc_def)

lemma write_srt_None:
  "snd (write_srt p segs w) = None \<Longrightarrow> \<not> unwritable w p \<and> (\<exists>g. srt_groups segs = Inr g)"
  by (auto simp: write_srt_def open_w_def Let_def split: sum.splits if_splits)

lemma write_txt_None: "snd (write_txt p segs w) = None \<Longrightarrow> \<not> unwritable w p"
  by (auto simp: write_txt_def open_w_def Let_def split: if_splits)

lemma write_srt_opened: "opened (fst (write_srt p segs w)) = opened w @ [p]"
  by (auto simp: write_srt_def open_w_def Let_def split: sum.splits)

lemma write_txt_opened: "opened (fst (write_txt p segs w)) = opened w @ [p]"
  by (auto simp: write_txt_def open_w_def Let_def)

lemma write_txt_unwritable: "unwritable (fst (write_txt p segs w)) = unwritable w"
  by (auto simp: write_txt_def open_w_def Let_def)

lemma write_artifacts_txt:
  assumes "snd (write_txt (path_stem fp @ asc ''.txt'') segs w) = Some e"
  shows "write_artifacts fp True osrt segs w = write_txt (path_stem fp @ asc ''.txt'') segs w"
  using assms by (cases "write_txt (path_stem fp @ asc ''.txt'') segs w")
    (simp add: write_artifacts_def Let_def)

lemma write_artifacts_txt_srt:
  assumes "snd (write_txt (path_stem fp @ asc ''.txt'') segs w) = None"
  shows "write_artifacts fp True osrt segs w =
           (if osrt then write_srt (path_stem fp @ asc ''.srt'') segs
                           (fst (write_txt (path_stem fp @ asc ''.txt'') segs w))
            else (fst (write_txt (path_stem fp @ asc ''.txt'') segs w), None))"
  using assms by (cases "write_txt (path_stem fp @ asc ''.txt'') segs w")
    (simp add: write_artifacts_def Let_def)

lemma write_artifacts_srt_only:
  "write_artifacts fp False True segs w = write_srt (path_stem fp @ asc ''.srt'') segs w"
  by (simp add: write_artifacts_def Let_def)

lemma write_artifacts_txt_fail:
  assumes "unwritable w (path_stem fp @ asc ''.txt'')"
  shows "snd (write_artifacts fp True osrt segs w) = Some OSError
       \<and> files (fst (write_artifacts fp True osrt segs w)) = files w
       \<and> opened (fst (write_artifacts fp True osrt segs w))
           = opened w @ [path_stem fp @ asc ''.txt'']"
  using write_txt_fail [OF assms, of segs] write_artifacts_txt [of fp segs w OSError osrt]
  by simp

lemma write_artifacts_srt_fail:
  assumes "\<not> unwritable w (path_stem fp @ asc ''.txt'')"
    and "unwritable w (path_stem fp @ asc ''.srt'')"
  shows "snd (write_artifacts fp True True segs w) = Some OSError
       \<and> files (fst (write_artifacts fp True True segs w)) (path_stem fp @ asc ''.txt'')
           = Some (concat (map (\<lambda>s. snd (snd s)) segs))
       \<and> opened (fst (write_artifacts fp True True segs w))
           = opened w @ [path_stem fp @ asc ''.txt'', path_stem fp @ asc ''.srt'']"
proof -
  let ?T = "path_stem fp @ asc ''.txt''" and ?S = "path_stem fp @ asc ''.srt''"
  let ?w' = "fst (write_txt ?T segs w)"
  note t = write_txt_ok [OF assms(1), of segs]
  have u: "unwritable ?w' ?S" using t assms(2) by simp
  have eq: "write_artifacts fp True True segs w = write_srt ?S segs ?w'"
    using write_artifacts_txt_srt [of fp segs w True] t by simp
  show ?thesis using write_srt_fail [OF u, of segs] t by (simp add: eq)
qed

lemma write_artifacts_other:
  assumes "files (fst (write_artifacts fp otxt osrt segs w)) q \<noteq> files w q"
  shows "(otxt \<and> q = path_stem fp @ asc ''.txt'') \<or> (osrt \<and> q = path_stem fp @ asc ''.srt'')"
proof (rule ccontr)
  let ?T = "path_stem fp @ asc ''.txt''" and ?S = "path_stem fp @ asc ''.srt''"
  assume n: "\<not> ((otxt \<and> q = ?T) \<or> (osrt \<and> q = ?S))"
  have "files (fst (write_artifacts fp otxt osrt segs w)) q = files w q"
  proof (cases otxt)
    case False
    then show ?thesis
      using n write_srt_other [of q ?S segs w] by (simp add: write_artifacts_def Let_def)
  next
    case True
    with n have qT: "q \<noteq> ?T" by simp
    show ?thesis
    proof (cases "snd (write_txt ?T segs w)")
      case (Some e)
      then show ?thesis
        using True write_artifacts_txt [of fp segs w e osrt] write_txt_other [OF qT] by simp
    next
      case None
      show ?thesis
      proof (cases osrt)
        case False
        then show ?thesis
          using True None write_artifacts_txt_srt [of fp segs w osrt] write_txt_other [OF qT]
          by simp
      next
        case osrt: True
        with n have qS: "q \<noteq> ?S" by simp
        show ?thesis
          using True None osrt write_artifacts_txt_srt [of fp segs w osrt]
            write_txt_other [OF qT, of segs w]
            write_srt_other [OF qS, of segs "fst (write_txt ?T segs w)"]
          by simp
      qed
    qed
  qed
  with assms show False by simp
qed

lemma write_artifacts_success:
  assumes "snd (write_artifacts fp otxt osrt segs w) = None"
  shows "(otxt \<longrightarrow> files (fst (write_artifacts fp otxt osrt segs w)) (path_stem fp @ asc ''.txt'')
                     = Some (concat (map (\<lambda>s. snd (snd s)) segs)))
       \<and> (osrt \<longrightarrow> (\<exists>g. srt_groups segs = Inr g
                     \<and> files (fst (write_artifacts fp otxt osrt segs w)) (path_stem fp @ asc ''.srt'')
                        = Some (concat g)))
       \<and> opened (fst (write_artifacts fp otxt osrt segs w))
           = opened w @ (if otxt then [path_stem fp @ asc ''.txt''] else [])
                      @ (if osrt then [path_stem fp @ asc ''.srt''] else [])"
proof -
  let ?T = "path_stem fp @ asc ''.txt''" and ?S = "path_stem fp @ asc ''.srt''"
  show ?thesis
  proof (cases otxt)
    case False
    show ?thesis
    proof (cases osrt)
      case False
      with \<open>\<not> otxt\<close> show ?thesis by (simp add: write_artifacts_def)
    next
      case True
      with \<open>\<not> otxt\<close> assms have s: "snd (write_srt ?S segs w) = None"
        by (simp add: write_artifacts_srt_only)
      from write_srt_None [OF s] obtain g where u: "\<not> unwritable w ?S" and g: "srt_groups segs = Inr g"
        by blast
      from write_srt_ok [OF u g] True \<open>\<not> otxt\<close> g show ?thesis
        by (simp add: write_artifacts_srt_only)
    qed
  next
    case True
    have tN: "snd (write_txt ?T segs w) = None"
    proof (cases "snd (write_txt ?T segs w)")
      case (Some e)
      with write_artifacts_txt [of fp segs w e osrt] True assms show ?thesis by simp
    qed simp
    from write_txt_None [OF tN] have uT: "\<not> unwritable w ?T" .
    note t = write_txt_ok [OF uT, of segs]
    let ?w' = "fst (write_txt ?T segs w)"
    note eq = write_artifacts_txt_srt [OF tN, of osrt]
    show ?thesis
    proof (cases osrt)
      case False
      with True eq t show ?thesis by simp
    next
      case osrt: True
      with True eq assms have s: "snd (write_srt ?S segs ?w') = None" by simp
      from write_srt_None [OF s] obtain g where u: "\<not> unwritable ?w' ?S" and g: "srt_groups segs = Inr g"
        by blast
      note r = write_srt_ok [OF u g]
      have "?T \<noteq> ?S" by (rule txt_neq_srt)
      with r have keep: "files (fst (write_srt ?S segs ?w')) ?T = files ?w' ?T" by blast
      show ?thesis using True osrt eq r t keep g by simp
    qed
  qed
qed

lemma transcribe_Stop:
  assumes "whisper ms dev ct fp 5 = Inr (yields ss Stop, info)"
  shows "\<exists>w2. same_fs w2 w
           \<and> transcribe whisper v ms dev ct fp otxt osrt w
               = write_artifacts fp otxt osrt (materialized ss) w2"
proof -
  let ?w1 = "if v then print (DetectedLanguage (language info) (language_probability info)) w
             else w"
  obtain w2 res where c: "collect v (yields ss Stop) [] ?w1 = (w2, res)"
    by (cases "collect v (yields ss Stop) [] ?w1")
  have fs: "same_fs w2 w"
    using collect_same_fs [of v "yields ss Stop" "[]" "?w1"] c
    by (simp add: same_fs_def print_def)
  have res: "res = Inr (materialized ss)"
    using collect_yields_Stop [of v ss "[]" "?w1"] c by simp
  have "transcribe whisper v ms dev ct fp otxt osrt w
          = write_artifacts fp otxt osrt (materialized ss) w2"
    using transcribe_Inr [of whisper ms dev ct fp "yields ss Stop" info v w w2 res] assms c res
    by simp
  with fs show ?thesis by blast
qed

lemma materialized_texts: "map (\<lambda>s. snd (snd s)) (materialized ss) = map seg_text ss"
  by (simp add: materialized_def)




subsection \<open>The paths of the artifacts\<close>

lemma split_on_nonempty: "split_on sep s \<noteq> []"
  by (induction s) (auto split: list.splits)

lemma split_on_no_sep: "c \<in> set (split_on sep s) \<Longrightarrow> sep \<notin> set c"
proof (induction s arbitrary: c)
  case Nil
  then show ?case by simp
next
  case (Cons x xs)
  show ?case
  proof (cases "x = sep")
    case True
    with Cons show ?thesis by auto
  next
    case False
    obtain h t where ht: "split_on sep xs = h # t"
      using split_on_nonempty [of sep xs] by (cases "split_on sep xs") auto
    with Cons.prems False have "c = x # h \<or> c \<in> set t" by simp
    then show ?thesis
    proof
      assume "c = x # h"
      moreover have "sep \<notin> set h" using Cons.IH [of h] ht by simp
      ultimately show ?thesis using False by auto
    next
      assume "c \<in> set t"
      then show ?thesis using Cons.IH [of c] ht by simp
    qed
  qed
qed

lemma split_on_append: "split_on sep (d @ sep # n) = split_on sep d @ split_on sep n"
proof (induction d)
  case Nil
  then show ?case by simp
next
  case (Cons x xs)
  obtain h t where ht: "split_on sep xs = h # t"
    using split_on_nonempty [of sep xs] by (cases "split_on sep xs") auto
  with Cons show ?case by simp
qed

lemma split_on_single: "sep \<notin> set n \<Longrightarrow> split_on sep n = [n]"
  by (induction n) auto

lemma path_name_no_slash: "47 \<notin> set (path_name p)"
proof -
  let ?parts = "filter (\<lambda>c. c \<noteq> [] \<and> c \<noteq> asc ''.'') (split_on 47 p)"
  show ?thesis
  proof (cases ?parts)
    case Nil
    then show ?thesis by (simp add: path_name_def)
  next
    case (Cons x xs)
    then have "path_name p = last ?parts" by (simp add: path_name_def)
    moreover have "last ?parts \<in> set ?parts" using Cons by (intro last_in_set) simp
    ultimately have "path_name p \<in> set (split_on 47 p)" by auto
    then show ?thesis by (rule split_on_no_sep)
  qed
qed

lemma path_stem_no_slash: "47 \<notin> set (path_stem p)"
proof -
  have "set (path_stem p) \<subseteq> set (path_name p)"
    by (auto simp: path_stem_def Let_def dest: in_set_takeD)
  with path_name_no_slash [of p] show ?thesis by blast
qed

lemma path_name_last:
  "path_name p =
     (let parts = filter (\<lambda>c. c \<noteq> [] \<and> c \<noteq> asc ''.'') (split_on 47 p)
      in if parts = [] then [] else last parts)"
  by (simp add: path_name_def Let_def split: list.splits)

lemma path_name_dir:
  assumes "47 \<notin> set name" and "name \<noteq> []" and "name \<noteq> asc ''.''"
  shows "path_name (dir @ 47 # name) = name" and "path_name name = name"
  using assms by (simp_all add: path_name_last split_on_append split_on_single)

lemma rfind_none: "c \<notin> set s \<Longrightarrow> rfind c s = - 1"
  by (induction s) (auto simp: Let_def)

lemma rfind_last: "c \<notin> set ext \<Longrightarrow> rfind c (base @ c # ext) = int (length base)"
  by (induction base) (auto simp: Let_def rfind_none)

lemma path_stem_ext:
  assumes "base \<noteq> []" and "ext \<noteq> []" and "46 \<notin> set ext" and "47 \<notin> set base" and "47 \<notin> set ext"
  shows "path_stem (base @ 46 # ext) = base"
proof -
  have "base @ 46 # ext \<noteq> asc ''.''"
    using assms by (cases base) (simp_all add: asc_def)
  then have n: "path_name (base @ 46 # ext) = base @ 46 # ext"
    using assms by (intro path_name_dir(2)) auto
  show ?thesis using assms by (simp add: path_stem_def n rfind_last Let_def)
qed

lemma transcribe_cases:
  "(\<exists>w2 e. same_fs w2 w \<and> transcribe whisper v ms dev ct fp otxt osrt w = (w2, Some e))
   \<or> (\<exists>w2 segs. same_fs w2 w
         \<and> transcribe whisper v ms dev ct fp otxt osrt w = write_artifacts fp otxt osrt segs w2)"
proof (cases "whisper ms dev ct fp 5")
  case (Inl e)
  then have "transcribe whisper v ms dev ct fp otxt osrt w = (w, Some e)"
    by (rule transcribe_Inl)
  then show ?thesis using same_fs_refl by blast
next
  case (Inr r)
  obtain segments info where r: "r = (segments, info)" by (cases r)
  let ?w1 = "if v then print (DetectedLanguage (language info) (language_probability info)) w
             else w"
  obtain w2 res where c: "collect v segments [] ?w1 = (w2, res)"
    by (cases "collect v segments [] ?w1")
  have fs: "same_fs w2 w"
    using collect_same_fs [of v segments "[]" "?w1"] c by (simp add: same_fs_def print_def)
  note t = transcribe_Inr [of whisper ms dev ct fp segments info v w w2 res otxt osrt]
  show ?thesis
  proof (cases res)
    case (Inl e)
    with t Inr r c have "transcribe whisper v ms dev ct fp otxt osrt w = (w2, Some e)" by simp
    with fs show ?thesis by blast
  next
    case (Inr segs)
    with t \<open>whisper ms dev ct fp 5 = Inr r\<close> r c
    have "transcribe whisper v ms dev ct fp otxt osrt w = write_artifacts fp otxt osrt segs w2"
      by simp
    with fs show ?thesis by blast
  qed
qed

lemma path_stem_examples:
  "path_stem (asc ''talk.mp3'') = asc ''talk''"
  "path_stem (asc ''/data/audio/talk.show.mp3'') = asc ''talk.show''"
  "path_stem (asc ''audio/talk'') = asc ''talk''"
  "path_stem (asc ''.bashrc'') = asc ''.bashrc''"
  "path_stem (asc ''a/b/'') = asc ''b''"
  "path_stem (asc ''/'') = []"
  by code_simp+



end
